theory Spec2Isabelle
  imports Complex_Main "HOL-Library.Sublist" "HOL-Library.Product_Lexorder"
begin

section \<open>Messages and their wire format (message.py)\<close>

text \<open>
  \<^verbatim>\<open>MessageType\<close> is a class of six string constants.  A decoded message may carry any
  other string as its type; \<open>OTHER\<close> stands for all of those (the \<^verbatim>\<open>case _\<close> branch of
  \<^verbatim>\<open>NodeServer.process_message\<close>).
\<close>

datatype msg_type = REQUEST | GRANT | RELEASE | FAILED | INQUIRE | YIELD | OTHER

text \<open>
  \<^verbatim>\<open>Message\<close>: the five attributes of the class.  Node ids are natural numbers,
  timestamps are Python integers.  \<open>dest\<close> is \<^verbatim>\<open>None\<close> until \<^verbatim>\<open>set_dest\<close> or the
  constructor fills it in; \<open>data\<close> is \<^verbatim>\<open>None\<close> or the pair \<^verbatim>\<open>(ts, src)\<close> that an INQUIRE
  carries.
\<close>

record message =
  msg_type :: msg_type
  src :: nat
  dest :: "nat option"
  ts :: int
  data :: "(int \<times> nat) option"

datatype error = ValueError | IndexError | AssertionError

subsection \<open>Serialisation: \<^verbatim>\<open>Message.to_json\<close>\<close>

definition digit_char :: "nat \<Rightarrow> char" where
  "digit_char d = ''0123456789'' ! d"

function show_nat :: "nat \<Rightarrow> string" where
  "show_nat n = (if n < 10 then [digit_char n] else show_nat (n div 10) @ [digit_char (n mod 10)])"
  by pat_completeness auto
termination
  by (relation "measure (\<lambda>n. n)") auto

definition show_int :: "int \<Rightarrow> string" where
  "show_int i = (if i < 0 then CHR ''-'' # show_nat (nat (- i)) else show_nat (nat i))"

fun type_name :: "msg_type \<Rightarrow> string" where
  "type_name REQUEST = ''REQUEST''"
| "type_name GRANT = ''GRANT''"
| "type_name RELEASE = ''RELEASE''"
| "type_name FAILED = ''FAILED''"
| "type_name INQUIRE = ''INQUIRE''"
| "type_name YIELD = ''YIELD''"
| "type_name OTHER = ''OTHER''"

fun show_dest :: "nat option \<Rightarrow> string" where
  "show_dest None = ''null''"
| "show_dest (Some d) = show_nat d"

fun show_data :: "(int \<times> nat) option \<Rightarrow> string" where
  "show_data None = ''null''"
| "show_data (Some (t, s)) = ''['' @ show_int t @ '', '' @ show_nat s @ '']''"

text \<open>
  \<^verbatim>\<open>json.dumps\<close> of the dictionary built in \<^verbatim>\<open>to_json\<close>, with the default separators
  (a comma and a space, a colon and a space) and the keys in insertion order.
\<close>

definition to_json :: "message \<Rightarrow> string" where
  \<open>to_json m =
     ''{"msg_type": "'' @ type_name (msg_type m) @
     ''", "src": '' @ show_nat (src m) @
     '', "dest": '' @ show_dest (dest m) @
     '', "ts": '' @ show_int (ts m) @
     '', "data": '' @ show_data (data m) @ ''}''\<close>

subsection \<open>Framing: \<^verbatim>\<open>Message.parse\<close>\<close>

text \<open>
  \<^verbatim>\<open>str.find(sub)\<close>: the lowest index at which \<open>sub\<close> occurs, \<open>None\<close> for Python's \<open>-1\<close>.
\<close>

fun str_find :: "string \<Rightarrow> string \<Rightarrow> nat option" where
  "str_find [] sub = (if sub = [] then Some 0 else None)"
| "str_find (c # cs) sub =
     (if prefix sub (c # cs) then Some 0 else map_option Suc (str_find cs sub))"

text \<open>\<^verbatim>\<open>s[-1]\<close>: the last character, \<^verbatim>\<open>IndexError\<close> on the empty string.\<close>

definition str_last :: "string \<Rightarrow> error + char" where
  "str_last s = (if s = [] then Inl IndexError else Inr (last s))"

lemma str_find_bound: "str_find s sub = Some i \<Longrightarrow> i + length sub \<le> length s"
proof (induction s arbitrary: i)
  case Nil
  then show ?case by (simp split: if_splits)
next
  case (Cons c cs)
  show ?case
  proof (cases "prefix sub (c # cs)")
    case True
    with Cons.prems have "i = 0" by simp
    with prefix_length_le [OF True] show ?thesis by simp
  next
    case False
    with Cons.prems obtain j where "str_find cs sub = Some j" "i = Suc j" by auto
    with Cons.IH show ?thesis by fastforce
  qed
qed

text \<open>
  The \<^verbatim>\<open>while True\<close> loop of \<^verbatim>\<open>parse\<close>; \<open>s\<close> is the rest of the stream, \<open>msgs\<close> the
  frames split off so far.  Both index expressions \<^verbatim>\<open>str[-1]\<close> and
  \<^verbatim>\<open>str[:split + 1][-1]\<close> go through \<open>str_last\<close>.
\<close>

function parse_loop :: "string \<Rightarrow> string list \<Rightarrow> error + string list" where
  "parse_loop s msgs =
     (case str_find s ''}{'' of
        None \<Rightarrow>
          (case str_last s of
             Inl e \<Rightarrow> Inl e
           | Inr c \<Rightarrow> if c \<noteq> CHR ''}'' then Inl ValueError else Inr (msgs @ [s]))
      | Some split \<Rightarrow>
          (case str_last (take (split + 1) s) of
             Inl e \<Rightarrow> Inl e
           | Inr c \<Rightarrow>
               if c \<noteq> CHR ''}'' then Inl ValueError
               else parse_loop (drop (split + 1) s) (msgs @ [take (split + 1) s])))"
  by pat_completeness auto
termination
proof (relation "measure (\<lambda>(s, msgs). length s)")
  show "wf (measure (\<lambda>(s, msgs). length s))" by simp
next
  fix s :: string and msgs :: "string list" and split :: nat and c :: char
  assume "str_find s ''}{'' = Some split"
  from str_find_bound [OF this] have "split + 2 \<le> length s" by simp
  then show "((drop (split + 1) s, msgs @ [take (split + 1) s]), (s, msgs))
               \<in> measure (\<lambda>(s, msgs). length s)"
    by simp
qed

definition parse :: "string \<Rightarrow> error + string list" where
  "parse s = parse_loop s []"

text \<open>
  A serialised message as the framing contract sees it: a JSON object string, opening
  with a brace, closing with a brace, with no \<^verbatim>\<open>}{\<close> inside.
\<close>

definition json_frame :: "string \<Rightarrow> bool" where
  "json_frame m \<longleftrightarrow>
     m \<noteq> [] \<and> hd m = CHR ''{'' \<and> last m = CHR ''}'' \<and> str_find m ''}{'' = None"

section \<open>Quorum construction (\<^verbatim>\<open>Node.__form_colleagues\<close>)\<close>

text \<open>
  \<^verbatim>\<open>ceil(sqrt(numNodes))\<close>, computed by search: the least \<open>m\<close> with \<open>N \<le> m * m\<close>.  The
  lemma \<open>ceil_sqrt_real\<close> below shows that this is the ceiling of the real square root
  (the source goes through a double, which is exact for every realistic node count).
\<close>

function sqrt_search :: "nat \<Rightarrow> nat \<Rightarrow> nat" where
  "sqrt_search N m = (if N \<le> m * m then m else sqrt_search N (Suc m))"
  by pat_completeness auto
termination
proof (relation "measure (\<lambda>(N, m). N - m)")
  show "wf (measure (\<lambda>(N, m). N - m))" by simp
next
  fix N m :: nat
  assume "\<not> N \<le> m * m"
  then have lt: "m * m < N" by simp
  have "m \<le> m * m" by (cases m) simp_all
  from this lt have "m < N" by (rule le_less_trans)
  then show "((N, Suc m), (N, m)) \<in> measure (\<lambda>(N, m). N - m)" by simp
qed

definition ceil_sqrt :: "nat \<Rightarrow> nat" where
  "ceil_sqrt N = sqrt_search N 0"

text \<open>
  The first \<^verbatim>\<open>for\<close> loop (the node's row) leaves at the first position past the last
  node (\<^verbatim>\<open>break\<close>); the second (the node's column) skips such positions
  (\<^verbatim>\<open>continue\<close>).  \<open>N\<close> is \<^verbatim>\<open>config.numNodes\<close>.
\<close>

fun row_loop :: "nat \<Rightarrow> nat \<Rightarrow> nat \<Rightarrow> nat list \<Rightarrow> nat set \<Rightarrow> nat set" where
  "row_loop N num_rows row_index [] colleagues = colleagues"
| "row_loop N num_rows row_index (j # js) colleagues =
     (let pos = row_index * num_rows + j in
      if pos \<ge> N then colleagues
      else row_loop N num_rows row_index js (insert pos colleagues))"

fun col_loop :: "nat \<Rightarrow> nat \<Rightarrow> nat \<Rightarrow> nat list \<Rightarrow> nat set \<Rightarrow> nat set" where
  "col_loop N num_rows col_index [] colleagues = colleagues"
| "col_loop N num_rows col_index (i # is) colleagues =
     (let pos = i * num_rows + col_index in
      if pos \<ge> N then col_loop N num_rows col_index is colleagues
      else col_loop N num_rows col_index is (insert pos colleagues))"

text \<open>
  The padding loop \<^verbatim>\<open>while len(colleagues) < 2 * num_rows - 1\<close>.  Each pass consumes one
  outcome of \<^verbatim>\<open>random.randint(0, numNodes - 1)\<close> from the list \<open>draws\<close>; the result is
  \<open>None\<close> when the outcomes run out while the loop is still going.  \<open>valid_draws\<close> says
  that the outcomes are ones \<^verbatim>\<open>randint\<close> can return.
\<close>

fun pad_loop :: "nat \<Rightarrow> nat set \<Rightarrow> nat list \<Rightarrow> nat set option" where
  "pad_loop target colleagues [] =
     (if card colleagues < target then None else Some colleagues)"
| "pad_loop target colleagues (d # draws) =
     (if card colleagues < target then pad_loop target (insert d colleagues) draws
      else Some colleagues)"

definition valid_draws :: "nat \<Rightarrow> nat list \<Rightarrow> bool" where
  "valid_draws N draws = list_all (\<lambda>d. d < N) draws"

definition grid_union :: "nat \<Rightarrow> nat \<Rightarrow> nat set" where
  "grid_union N ident =
     (let num_rows = ceil_sqrt N;
          row_index = ident div num_rows;
          col_index = ident mod num_rows;
          colleagues = row_loop N num_rows row_index [0..<num_rows] {}
      in col_loop N num_rows col_index [0..<num_rows] colleagues)"

definition padded :: "nat \<Rightarrow> nat \<Rightarrow> nat list \<Rightarrow> nat set option" where
  "padded N ident draws = pad_loop (2 * ceil_sqrt N - 1) (grid_union N ident) draws"

text \<open>
  The whole method: union, padding, \<^verbatim>\<open>discard(self.id)\<close>, \<^verbatim>\<open>list(colleagues)\<close>.  Python
  leaves the order of the list to the set's hashing; the model lists the ids in
  ascending order.
\<close>

definition form_colleagues :: "nat \<Rightarrow> nat \<Rightarrow> nat list \<Rightarrow> nat list option" where
  "form_colleagues N ident draws =
     map_option (\<lambda>colleagues. sorted_list_of_set (colleagues - {ident})) (padded N ident draws)"

section \<open>Node state (\<^verbatim>\<open>Node.__init__\<close>)\<close>

text \<open>
  The pending-request queue is a \<^verbatim>\<open>PriorityQueue\<close> of pairs \<^verbatim>\<open>(ts, src)\<close>, ordered as
  Python orders tuples (lexicographically).  It is kept as an ascending list: \<open>put\<close>
  inserts in order, \<^verbatim>\<open>get\<close> takes the head.
\<close>

type_synonym priority = "int \<times> nat"

definition put :: "priority \<Rightarrow> priority list \<Rightarrow> priority list" where
  "put p q = insort p q"

record node =
  node_id :: nat
  lamport_ts :: int
  colleagues :: "nat list"
  queue :: "priority list"
  grants_sent :: "priority option"
  grants_received :: "nat set"
  yielded :: bool
  failed :: bool
  in_CS :: bool
  wakeupcounter :: nat

definition init_node :: "nat \<Rightarrow> nat \<Rightarrow> nat list \<Rightarrow> node option" where
  "init_node N ident draws =
     map_option
       (\<lambda>cs. \<lparr>node_id = ident, lamport_ts = 0, colleagues = cs, queue = [],
              grants_sent = None, grants_received = {}, yielded = False, failed = False,
              in_CS = False, wakeupcounter = 0\<rparr>)
       (form_colleagues N ident draws)"

section \<open>Sending (nodeSend.py)\<close>

text \<open>
  Every operation on a node returns the node as it leaves it, the messages it wrote to
  its sockets, and the exception that ended it, if any.  The sockets themselves are not
  modelled: \<^verbatim>\<open>sendall\<close> appends to the list of messages written.

  \<^verbatim>\<open>send_message\<close> ticks the clock and stamps the message unless it is called from
  \<^verbatim>\<open>multicast\<close>, then asserts \<^verbatim>\<open>dest == msg.dest\<close>.  \<^verbatim>\<open>multicast\<close> ticks and stamps
  once, and sends a copy with \<^verbatim>\<open>dest\<close> filled in to every member of the group; its own two
  assertions compare a copy with the values just written into it.
\<close>

type_synonym result = "node \<times> message list \<times> error option"

definition and_then :: "result \<Rightarrow> (node \<Rightarrow> node) \<Rightarrow> result" where
  "and_then r f =
     (case r of (n, out, None) \<Rightarrow> (f n, out, None) | (n, out, Some e) \<Rightarrow> (n, out, Some e))"

definition send_message :: "node \<Rightarrow> message \<Rightarrow> nat \<Rightarrow> bool \<Rightarrow> result" where
  "send_message n msg d multicast =
     (let n1 = (if \<not> multicast then n\<lparr>lamport_ts := lamport_ts n + 1\<rparr> else n);
          msg1 = (if \<not> multicast then msg\<lparr>ts := lamport_ts n1\<rparr> else msg)
      in if Some d \<noteq> dest msg1 then (n1, [], Some AssertionError)
         else (n1, [msg1], None))"

fun multicast_loop :: "node \<Rightarrow> message \<Rightarrow> nat list \<Rightarrow> message list \<Rightarrow> result" where
  "multicast_loop n msg [] out = (n, out, None)"
| "multicast_loop n msg (d # ds) out =
     (let new_msg = msg\<lparr>dest := Some d\<rparr> in
      case send_message n new_msg d True of
        (n1, out1, Some e) \<Rightarrow> (n1, out @ out1, Some e)
      | (n1, out1, None) \<Rightarrow> multicast_loop n1 msg ds (out @ out1))"

definition multicast :: "node \<Rightarrow> message \<Rightarrow> nat list \<Rightarrow> result" where
  "multicast n msg dests =
     (let n1 = n\<lparr>lamport_ts := lamport_ts n + 1\<rparr>;
          msg1 = msg\<lparr>ts := lamport_ts n1\<rparr>
      in multicast_loop n1 msg1 dests [])"

section \<open>Message handlers (node.py)\<close>

definition request_handler :: "node \<Rightarrow> message \<Rightarrow> result" where
  "request_handler n msg =
     (case grants_sent n of
        Some (hp_ts, hp_src) \<Rightarrow>
          if (hp_ts, hp_src) < (ts msg, src msg) then
            and_then
              (send_message n
                 \<lparr>msg_type = FAILED, src = node_id n, dest = Some (src msg),
                  ts = lamport_ts n, data = None\<rparr> (src msg) False)
              (\<lambda>n1. n1\<lparr>queue := put (ts msg, src msg) (queue n1)\<rparr>)
          else
            and_then
              (send_message n
                 \<lparr>msg_type = INQUIRE, src = node_id n, dest = Some hp_src,
                  ts = lamport_ts n, data = Some (ts msg, src msg)\<rparr> hp_src False)
              (\<lambda>n1. n1\<lparr>queue := put (ts msg, src msg) (queue n1)\<rparr>)
      | None \<Rightarrow>
          and_then
            (send_message n
               \<lparr>msg_type = GRANT, src = node_id n, dest = Some (src msg),
                ts = lamport_ts n, data = None\<rparr> (src msg) False)
            (\<lambda>n1. n1\<lparr>grants_sent := Some (ts msg, src msg)\<rparr>))"

text \<open>
  The tail shared by \<^verbatim>\<open>yield_handler\<close> and \<^verbatim>\<open>release_handler\<close>: take the head of the
  queue, send it a GRANT, record it in \<open>grants_sent\<close>.
\<close>

definition grant_head :: "node \<Rightarrow> priority \<Rightarrow> priority list \<Rightarrow> result" where
  "grant_head n p rest =
     (let n1 = n\<lparr>queue := rest\<rparr> in
      and_then
        (send_message n1
           \<lparr>msg_type = GRANT, src = node_id n1, dest = Some (snd p),
            ts = lamport_ts n1, data = None\<rparr> (snd p) False)
        (\<lambda>n2. n2\<lparr>grants_sent := Some p\<rparr>))"

definition yield_handler :: "node \<Rightarrow> message \<Rightarrow> result" where
  "yield_handler n msg =
     (let n1 = n\<lparr>queue := put (ts msg, src msg) (queue n)\<rparr>;
          n2 = (if grants_sent n1 = Some (ts msg, src msg) then n1\<lparr>grants_sent := None\<rparr>
                else n1)
      in case queue n2 of
           [] \<Rightarrow> (n2, [], None)
         | p # rest \<Rightarrow> grant_head n2 p rest)"

text \<open>
  The loop of \<^verbatim>\<open>release_handler\<close> that empties the queue into \<^verbatim>\<open>new_queue\<close>, dropping
  the entries of the releasing node.
\<close>

fun purge :: "nat \<Rightarrow> priority list \<Rightarrow> priority list \<Rightarrow> priority list" where
  "purge s [] new_queue = new_queue"
| "purge s ((q_ts, q_src) # rest) new_queue =
     (if q_src = s then purge s rest new_queue
      else purge s rest (put (q_ts, q_src) new_queue))"

definition release_handler :: "node \<Rightarrow> message \<Rightarrow> result" where
  "release_handler n msg =
     (let n1 = (if grants_sent n = Some (ts msg, src msg) then n\<lparr>grants_sent := None\<rparr>
                else n);
          n2 = n1\<lparr>queue := purge (src msg) (queue n1) []\<rparr>
      in case queue n2 of
           [] \<Rightarrow> (n2\<lparr>grants_sent := None\<rparr>, [], None)
         | p # rest \<Rightarrow> grant_head n2 p rest)"

definition inquire_handler :: "node \<Rightarrow> message \<Rightarrow> result" where
  "inquire_handler n msg =
     (if \<not> in_CS n then
        (let rep = \<lparr>msg_type = YIELD, src = node_id n, dest = Some (src msg),
                    ts = lamport_ts n, data = None\<rparr>;
             n1 = n\<lparr>yielded := True\<rparr>;
             n2 = (if src msg \<in> grants_received n1
                   then n1\<lparr>grants_received := grants_received n1 - {src msg}\<rparr> else n1)
         in send_message n2 rep (src msg) False)
      else (n, [], None))"

text \<open>
  \<^verbatim>\<open>grant_handler\<close> returns, next to the node, whether it called
  \<^verbatim>\<open>self.condition.notify()\<close>.  The waiting thread re-checks its guard whenever it
  wakes, so \<open>dispatch\<close> below keeps the node only.
\<close>

definition grant_handler :: "node \<Rightarrow> message \<Rightarrow> node \<times> bool" where
  "grant_handler n msg =
     (let n1 = n\<lparr>grants_received := insert (src msg) (grants_received n)\<rparr>;
          n2 = n1\<lparr>yielded := False\<rparr>;
          n3 = n2\<lparr>failed := False\<rparr>
      in (n3, \<not> card (grants_received n3) < length (colleagues n3)))"

definition failed_handler :: "node \<Rightarrow> node" where
  "failed_handler n = (n\<lparr>failed := True\<rparr>)\<lparr>yielded := True\<rparr>"

section \<open>Receiving (\<^verbatim>\<open>NodeServer.process_message\<close>)\<close>

definition receive_clock :: "node \<Rightarrow> message \<Rightarrow> node" where
  "receive_clock n msg = n\<lparr>lamport_ts := max (lamport_ts n) (ts msg) + 1\<rparr>"

definition dispatch :: "node \<Rightarrow> message \<Rightarrow> result" where
  "dispatch n msg =
     (case msg_type msg of
        REQUEST \<Rightarrow> request_handler n msg
      | YIELD \<Rightarrow> yield_handler n msg
      | RELEASE \<Rightarrow> release_handler n msg
      | INQUIRE \<Rightarrow> inquire_handler n msg
      | GRANT \<Rightarrow> (fst (grant_handler n msg), [], None)
      | FAILED \<Rightarrow> (failed_handler n, [], None)
      | OTHER \<Rightarrow> (n, [], Some ValueError))"

definition process_message :: "node \<Rightarrow> message \<Rightarrow> result" where
  "process_message n msg = dispatch (receive_clock n msg) msg"

section \<open>The request loop (\<^verbatim>\<open>Node.run\<close>)\<close>

text \<open>
  The thread of \<^verbatim>\<open>run\<close> is cut at its blocking points: asleep before a request, waiting
  on the condition, inside the critical section, past it but before the RELEASE is sent,
  and at the barrier after three rounds.
\<close>

datatype phase = Sleeping | Waiting | InCS | Releasing | Finished

definition send_request :: "node \<Rightarrow> result" where
  "send_request n =
     (let n1 = n\<lparr>grants_received := insert (node_id n) (grants_received n)\<rparr>;
          req = \<lparr>msg_type = REQUEST, src = node_id n1, dest = None,
                 ts = lamport_ts n1, data = None\<rparr>
      in multicast n1 req (colleagues n1))"

text \<open>
  \<^verbatim>\<open>while len(self.grants_received) < len(self.colleagues): self.condition.wait()\<close>
  followed by \<^verbatim>\<open>self.in_CS = True\<close>: \<open>None\<close> while the thread has to wait.
\<close>

definition enter_cs :: "node \<Rightarrow> node option" where
  "enter_cs n =
     (if card (grants_received n) < length (colleagues n) then None
      else Some (n\<lparr>in_CS := True\<rparr>))"

definition exit_cs :: "node \<Rightarrow> node" where
  "exit_cs n = (n\<lparr>grants_received := {}\<rparr>)\<lparr>in_CS := False\<rparr>"

definition send_release :: "node \<Rightarrow> result" where
  "send_release n =
     and_then
       (multicast n
          \<lparr>msg_type = RELEASE, src = node_id n, dest = None, ts = lamport_ts n, data = None\<rparr>
          (colleagues n))
       (\<lambda>n1. n1\<lparr>wakeupcounter := wakeupcounter n1 + 1\<rparr>)"

fun run_step :: "node \<Rightarrow> phase \<Rightarrow> (result \<times> phase) option" where
  "run_step n Sleeping =
     (if wakeupcounter n \<le> 2 then Some (send_request n, Waiting)
      else Some ((n, [], None), Finished))"
| "run_step n Waiting =
     (case enter_cs n of None \<Rightarrow> None | Some n1 \<Rightarrow> Some ((n1, [], None), InCS))"
| "run_step n InCS = Some ((exit_cs n, [], None), Releasing)"
| "run_step n Releasing = Some (send_release n, Sleeping)"
| "run_step n Finished = None"

section \<open>The system: N nodes and the messages in flight\<close>

text \<open>
  One process hosts the nodes (maekawaMutex.py).  \<open>network\<close> holds the messages written
  to the sockets and not yet read, in the order of writing; the stream from \<open>i\<close> to \<open>j\<close>
  delivers in that order.  An event is one step of a node's request loop or the receipt
  of the oldest message in flight from \<open>i\<close> to \<open>j\<close>; a step that cannot be taken (a
  thread that has to wait, no message to deliver) is \<open>None\<close>.  \<^verbatim>\<open>NodeServer.update\<close>
  catches and prints what a handler raises, so the node and the messages written up to
  that point stay.
\<close>

record system =
  nodes :: "node list"
  phases :: "phase list"
  network :: "message list"

datatype event = Run nat | Deliver nat nat

definition init_system :: "nat \<Rightarrow> (nat \<Rightarrow> nat list) \<Rightarrow> system option" where
  "init_system N draws =
     map_option (\<lambda>ns. \<lparr>nodes = ns, phases = replicate N Sleeping, network = []\<rparr>)
       (those (map (\<lambda>i. init_node N i (draws i)) [0..<N]))"

fun take_message :: "nat \<Rightarrow> nat \<Rightarrow> message list \<Rightarrow> (message \<times> message list) option" where
  "take_message i j [] = None"
| "take_message i j (m # ms) =
     (if src m = i \<and> dest m = Some j then Some (m, ms)
      else map_option (\<lambda>(m', ms'). (m', m # ms')) (take_message i j ms))"

fun step :: "system \<Rightarrow> event \<Rightarrow> system option" where
  "step sys (Run i) =
     (if i < length (nodes sys) \<and> i < length (phases sys) then
        (case run_step (nodes sys ! i) (phases sys ! i) of
           None \<Rightarrow> None
         | Some ((n, out, err), ph) \<Rightarrow>
             Some (sys\<lparr>nodes := (nodes sys)[i := n], phases := (phases sys)[i := ph],
                       network := network sys @ out\<rparr>))
      else None)"
| "step sys (Deliver i j) =
     (if j < length (nodes sys) then
        (case take_message i j (network sys) of
           None \<Rightarrow> None
         | Some (m, rest) \<Rightarrow>
             (case process_message (nodes sys ! j) m of
                (n, out, err) \<Rightarrow>
                  Some (sys\<lparr>nodes := (nodes sys)[j := n], network := rest @ out\<rparr>)))
      else None)"

fun exec :: "system \<Rightarrow> event list \<Rightarrow> system option" where
  "exec sys [] = Some sys"
| "exec sys (e # es) = (case step sys e of None \<Rightarrow> None | Some sys1 \<Rightarrow> exec sys1 es)"

text \<open>A run from the initial system: every node constructed, no message in flight.\<close>

definition run_from_start :: "nat \<Rightarrow> (nat \<Rightarrow> nat list) \<Rightarrow> event list \<Rightarrow> system option" where
  "run_from_start N draws evs =
     (case init_system N draws of None \<Rightarrow> None | Some sys \<Rightarrow> exec sys evs)"

section \<open>Derived notions\<close>

text \<open>The nodes that are inside the critical section.\<close>

definition occupants :: "system \<Rightarrow> nat list" where
  "occupants sys = filter (\<lambda>i. in_CS (nodes sys ! i)) [0..<length (nodes sys)]"

text \<open>
  A result is stamped at \<open>c\<close> when every message in it carries the timestamp \<open>c + 1\<close> and
  the clock has advanced by one per message.
\<close>

definition stamped :: "int \<Rightarrow> result \<Rightarrow> bool" where
  "stamped c r \<longleftrightarrow>
     (case r of (n, out, e) \<Rightarrow>
        lamport_ts n = c + int (length out) \<and> list_all (\<lambda>m. ts m = c + 1) out)"

text \<open>
  What the handlers keep true of a node: it is not its own colleague, its queue holds no
  entry of its own, and it has not granted to itself.  A message is well addressed when
  it does not go back to its sender.  A system is in order when all its nodes and all
  messages in flight are, and node \<open>i\<close> sits at index \<open>i\<close>.  An operation \<open>emits\<close> well
  when it leaves such a node behind and writes only well-addressed messages of its own.
\<close>

definition node_ok :: "node \<Rightarrow> bool" where
  "node_ok n \<longleftrightarrow>
     node_id n \<notin> set (colleagues n) \<and> node_id n \<notin> snd ` set (queue n)
     \<and> node_id n \<notin> snd ` set_option (grants_sent n)"

definition msg_ok :: "message \<Rightarrow> bool" where
  "msg_ok m \<longleftrightarrow> dest m \<noteq> Some (src m)"

definition sys_ok :: "system \<Rightarrow> bool" where
  "sys_ok sys \<longleftrightarrow>
     list_all node_ok (nodes sys) \<and> map node_id (nodes sys) = [0..<length (nodes sys)]
     \<and> list_all msg_ok (network sys)"

definition emits :: "node \<Rightarrow> result \<Rightarrow> bool" where
  "emits n r \<longleftrightarrow>
     (case r of (n', out, e) \<Rightarrow>
        node_ok n' \<and> node_id n' = node_id n
        \<and> list_all (\<lambda>m. src m = node_id n \<and> msg_ok m) out)"

section \<open>Example states\<close>

text \<open>
  Node 0 of a nine-node system as an arbiter, holding a queued request of node 6 and the
  grant \<open>g\<close>; node 2 of a four-node system with its own request out, at clock \<open>c\<close>; node
  0 of a four-node system right after its first request.
\<close>

definition arbiter :: "priority option \<Rightarrow> node" where
  "arbiter g = \<lparr>node_id = 0, lamport_ts = 6, colleagues = [1, 2, 3, 6], queue = [(2, 6)],
     grants_sent = g, grants_received = {}, yielded = False, failed = False,
     in_CS = False, wakeupcounter = 0\<rparr>"

definition member_at :: "int \<Rightarrow> node" where
  "member_at c = \<lparr>node_id = 2, lamport_ts = c, colleagues = [0, 3], queue = [],
     grants_sent = None, grants_received = {2}, yielded = False, failed = False,
     in_CS = False, wakeupcounter = 0\<rparr>"

definition waiting_node :: node where
  "waiting_node = \<lparr>node_id = 0, lamport_ts = 1, colleagues = [1, 2], queue = [],
     grants_sent = None, grants_received = {0}, yielded = False, failed = False,
     in_CS = False, wakeupcounter = 0\<rparr>"

declare show_nat.simps [simp del]
declare parse_loop.simps [simp del]
declare sqrt_search.simps [simp del]

section \<open>Framing\<close>

subsection \<open>Where \<^verbatim>\<open>find\<close> lands\<close>

lemma str_find_prefix: "str_find s sub = Some i \<Longrightarrow> prefix sub (drop i s)"
proof (induction s arbitrary: i)
  case Nil
  then show ?case by (simp split: if_splits)
next
  case (Cons c cs)
  show ?case
  proof (cases "prefix sub (c # cs)")
    case True
    with Cons.prems show ?thesis by simp
  next
    case False
    with Cons.prems obtain j where "str_find cs sub = Some j" "i = Suc j" by auto
    with Cons.IH show ?thesis by simp
  qed
qed

lemma prefix_sep_iff: "prefix ''}{'' s \<longleftrightarrow> (\<exists>r. s = CHR ''}'' # CHR ''{'' # r)"
  by (auto simp: prefix_def)

lemma str_find_at_boundary:
  assumes "str_find m ''}{'' = None" "m \<noteq> []" "last m = CHR ''}''"
    and "r \<noteq> []" "hd r = CHR ''{''"
  shows "str_find (m @ r) ''}{'' = Some (length m - 1)"
  using assms(1-3)
proof (induction m)
  case Nil
  then show ?case by simp
next
  case (Cons c cs)
  from assms(4,5) obtain r' where r: "r = CHR ''{'' # r'" by (cases r) auto
  show ?case
  proof (cases "cs = []")
    case True
    with Cons.prems have "c = CHR ''}''" by simp
    with True r show ?thesis by simp
  next
    case False
    then obtain d ds where cs: "cs = d # ds" by (cases cs) auto
    from Cons.prems(1) have np: "\<not> prefix ''}{'' (c # cs)" and none: "str_find cs ''}{'' = None"
      by (auto split: if_splits)
    from np cs have "\<not> prefix ''}{'' ((c # cs) @ r)" by simp
    moreover from Cons.IH [OF none False] Cons.prems(3) False
    have "str_find (cs @ r) ''}{'' = Some (length cs - 1)" by simp
    ultimately show ?thesis using False by (simp del: prefix_code)
  qed
qed

lemma str_find_no_closing: "CHR ''}'' \<notin> set b \<Longrightarrow> str_find (b @ ''}'') ''}{'' = None"
  by (induction b) auto

subsection \<open>What \<^verbatim>\<open>to_json\<close> writes is a frame\<close>

lemma digit_char_no_brace: "d < 10 \<Longrightarrow> digit_char d \<noteq> CHR ''}''"
proof -
  assume "d < 10"
  then have "d \<in> {0, 1, 2, 3, 4, 5, 6, 7, 8, 9}" by auto
  then show ?thesis by (auto simp: digit_char_def)
qed

lemma show_nat_no_brace: "CHR ''}'' \<notin> set (show_nat n)"
proof (induction n rule: show_nat.induct)
  case (1 n)
  show ?case
  proof (cases "n < 10")
    case True
    then show ?thesis using digit_char_no_brace [of n] by (simp add: show_nat.simps [of n])
  next
    case False
    moreover have "digit_char (n mod 10) \<noteq> CHR ''}''" by (rule digit_char_no_brace) simp
    ultimately show ?thesis using "1.IH" by (simp add: show_nat.simps [of n])
  qed
qed

lemma show_int_no_brace: "CHR ''}'' \<notin> set (show_int i)"
  by (simp add: show_int_def show_nat_no_brace)

lemma type_name_no_brace: "CHR ''}'' \<notin> set (type_name t)"
  by (cases t) simp_all

lemma show_dest_no_brace: "CHR ''}'' \<notin> set (show_dest d)"
  by (cases d) (simp_all add: show_nat_no_brace)

lemma show_data_no_brace: "CHR ''}'' \<notin> set (show_data d)"
proof (cases d)
  case None
  then show ?thesis by simp
next
  case (Some p)
  then show ?thesis by (cases p) (simp add: show_int_no_brace show_nat_no_brace)
qed

lemma to_json_frame: "json_frame (to_json m)"
proof -
  define b where \<open>b = ''{"msg_type": "'' @ type_name (msg_type m) @
     ''", "src": '' @ show_nat (src m) @
     '', "dest": '' @ show_dest (dest m) @
     '', "ts": '' @ show_int (ts m) @
     '', "data": '' @ show_data (data m)\<close>
  have eq: "to_json m = b @ ''}''" by (simp add: to_json_def b_def)
  have nb: "CHR ''}'' \<notin> set b"
    by (simp add: b_def type_name_no_brace show_nat_no_brace show_dest_no_brace
        show_int_no_brace show_data_no_brace)
  have hd: "hd (b @ ''}'') = CHR ''{''" by (simp add: b_def)
  from str_find_no_closing [OF nb] hd show ?thesis
    by (simp add: json_frame_def eq)
qed

lemma to_json_example:
  \<open>to_json \<lparr>msg_type = INQUIRE, src = 0, dest = Some 13, ts = 12, data = Some (-6, 1)\<rparr>
     = ''{"msg_type": "INQUIRE", "src": 0, "dest": 13, "ts": 12, "data": [-6, 1]}''\<close>
  by (simp add: to_json_def show_int_def show_nat.simps digit_char_def)

subsection \<open>Splitting a stream of frames\<close>

lemma parse_loop_frames:
  assumes "L \<noteq> []" "\<forall>m \<in> set L. json_frame m"
  shows "parse_loop (concat L) msgs = Inr (msgs @ L)"
  using assms
proof (induction L arbitrary: msgs)
  case Nil
  then show ?case by simp
next
  case (Cons m L)
  from Cons.prems have fm: "m \<noteq> []" "last m = CHR ''}''" "str_find m ''}{'' = None"
    by (simp_all add: json_frame_def)
  show ?case
  proof (cases "L = []")
    case True
    with fm show ?thesis
      by (simp add: parse_loop.simps [of m] str_last_def)
  next
    case False
    then obtain k K where L: "L = k # K" by (cases L) auto
    with Cons.prems have "json_frame k" by simp
    then have "k \<noteq> []" "hd k = CHR ''{''" by (simp_all add: json_frame_def)
    with L have r: "concat L \<noteq> []" "hd (concat L) = CHR ''{''" by simp_all
    from fm have len: "length m - 1 + 1 = length m" by (cases m) auto
    have found: "str_find (m @ concat L) ''}{'' = Some (length m - 1)"
      using str_find_at_boundary [OF fm(3) fm(1) fm(2) r] .
    have "parse_loop (concat (m # L)) msgs = parse_loop (concat L) (msgs @ [m])"
      using fm by (simp add: parse_loop.simps [of "m @ concat L"] found len str_last_def)
    also have "\<dots> = Inr ((msgs @ [m]) @ L)"
      using Cons.IH [OF False] Cons.prems(2) by simp
    finally show ?thesis by simp
  qed
qed

text \<open>
  Claim C7, as the code has it.  For every non-empty list \<open>L\<close> of serialised messages
  (each a JSON object string that opens with a brace, ends in a closing brace and has no
  \<^verbatim>\<open>}{\<close> inside), \<^verbatim>\<open>Message.parse\<close> applied to the concatenation of \<open>L\<close> returns exactly
  \<open>L\<close>, in order.
\<close>

theorem parse_concat_frames:
  assumes "L \<noteq> []" and "\<forall>m \<in> set L. json_frame m"
  shows "parse (concat L) = Inr L"
  using parse_loop_frames [OF assms, of "[]"] by (simp add: parse_def)

theorem parse_concat_frames_witness:
  "parse (concat [to_json \<lparr>msg_type = REQUEST, src = 0, dest = Some 1, ts = 1, data = None\<rparr>,
                  to_json \<lparr>msg_type = GRANT, src = 2, dest = Some 1, ts = 3, data = None\<rparr>])
     = Inr [to_json \<lparr>msg_type = REQUEST, src = 0, dest = Some 1, ts = 1, data = None\<rparr>,
            to_json \<lparr>msg_type = GRANT, src = 2, dest = Some 1, ts = 3, data = None\<rparr>]"
  using parse_concat_frames
    [of "[to_json \<lparr>msg_type = REQUEST, src = 0, dest = Some 1, ts = 1, data = None\<rparr>,
          to_json \<lparr>msg_type = GRANT, src = 2, dest = Some 1, ts = 3, data = None\<rparr>]"]
  by (simp add: to_json_frame)

text \<open>
  The empty list is a list of frames too, and its concatenation is the empty string, on
  which \<^verbatim>\<open>parse\<close> raises instead of returning the empty list: claim C7 without
  ``non-empty'' fails there.
\<close>

theorem parse_empty_list_counterexample:
  "list_all json_frame ([] :: string list)
     \<and> parse (concat ([] :: string list)) = Inl IndexError
     \<and> parse (concat ([] :: string list)) \<noteq> Inr []"
  by (simp add: parse_def parse_loop.simps [of "[]"] str_last_def)

subsection \<open>Partial trailing messages\<close>

lemma parse_loop_partial_trailer:
  "s \<noteq> [] \<Longrightarrow> last s \<noteq> CHR ''}'' \<Longrightarrow> parse_loop s msgs = Inl ValueError"
proof (induction s msgs rule: parse_loop.induct)
  case (1 s msgs)
  show ?case
  proof (cases "str_find s ''}{''")
    case None
    with "1.prems" show ?thesis by (simp add: parse_loop.simps [of s] str_last_def)
  next
    case (Some split)
    from str_find_bound [OF Some] have b: "split + 2 \<le> length s" by simp
    from str_find_prefix [OF Some] obtain r where d: "drop split s = CHR ''}'' # CHR ''{'' # r"
      by (auto simp: prefix_sep_iff)
    have tk: "take (split + 1) s \<noteq> []" using "1.prems" by simp
    have "last (take (split + 1) s) = s ! split"
      using b by (simp add: take_Suc_conv_app_nth)
    also have "\<dots> = hd (drop split s)" using b by (simp add: hd_drop_conv_nth)
    finally have lt: "last (take (split + 1) s) = CHR ''}''" using d by simp
    have nd: "drop (split + 1) s \<noteq> []" using b by simp
    then have ld: "last (drop (split + 1) s) = last s" by simp
    have sl: "str_last (take (split + 1) s) = Inr (CHR ''}'')"
      using tk lt by (simp add: str_last_def)
    have "parse_loop (drop (split + 1) s) (msgs @ [take (split + 1) s]) = Inl ValueError"
      using "1.IH" [OF Some sl] nd ld "1.prems" by simp
    then show ?thesis
      using Some sl by (simp add: parse_loop.simps [of s])
  qed
qed

text \<open>
  Claim C8.  For every non-empty input string whose last character is not a closing
  brace, \<^verbatim>\<open>Message.parse\<close> raises \<^verbatim>\<open>ValueError\<close>; it returns no list of frames, however
  many complete frames come before the partial one.
\<close>

theorem parse_partial_trailer:
  "s \<noteq> [] \<Longrightarrow> last s \<noteq> CHR ''}'' \<Longrightarrow> parse s = Inl ValueError"
  unfolding parse_def by (rule parse_loop_partial_trailer)

theorem parse_partial_trailer_witness:
  \<open>''{"ts": 1}{"ts": 2'' \<noteq> [] \<and> last ''{"ts": 1}{"ts": 2'' \<noteq> CHR ''}''
     \<and> parse ''{"ts": 1}{"ts": 2'' = Inl ValueError\<close>
  using parse_partial_trailer [of \<open>''{"ts": 1}{"ts": 2''\<close>] by simp

text \<open>
  Claim C10.  On the empty string \<^verbatim>\<open>find\<close> returns -1 and \<^verbatim>\<open>str[-1]\<close> raises
  \<^verbatim>\<open>IndexError\<close>: \<^verbatim>\<open>parse\<close> neither returns a list nor raises the \<^verbatim>\<open>ValueError\<close> of its
  docstring.
\<close>

theorem parse_empty_string:
  "parse [] = Inl IndexError \<and> parse [] \<noteq> Inl ValueError \<and> (\<forall>msgs. parse [] \<noteq> Inr msgs)"
  by (simp add: parse_def parse_loop.simps [of "[]"] str_last_def)

section \<open>Quorums\<close>

subsection \<open>The number of rows\<close>

lemma sqrt_search_spec:
  "\<forall>k<m. k * k < N \<Longrightarrow>
     N \<le> sqrt_search N m * sqrt_search N m \<and> (\<forall>k<sqrt_search N m. k * k < N)"
proof (induction N m rule: sqrt_search.induct)
  case (1 N m)
  show ?case
  proof (cases "N \<le> m * m")
    case True
    with "1.prems" show ?thesis by (simp add: sqrt_search.simps [of N m])
  next
    case False
    with "1.prems" have "\<forall>k<Suc m. k * k < N" by (auto simp: less_Suc_eq)
    from "1.IH" [OF False this] False show ?thesis
      by (simp add: sqrt_search.simps [of N m])
  qed
qed

lemma ceil_sqrt_upper: "N \<le> ceil_sqrt N * ceil_sqrt N"
  using sqrt_search_spec [of 0 N] by (simp add: ceil_sqrt_def)

lemma ceil_sqrt_least: "k < ceil_sqrt N \<Longrightarrow> k * k < N"
  using sqrt_search_spec [of 0 N] by (simp add: ceil_sqrt_def)

lemma ceil_sqrt_pos: "1 \<le> N \<Longrightarrow> 1 \<le> ceil_sqrt N"
  using ceil_sqrt_upper [of N] by (cases "ceil_sqrt N") simp_all

lemma ceil_sqrt_unique:
  assumes "N \<le> m * m" and "\<forall>k<m. k * k < N"
  shows "ceil_sqrt N = m"
proof (rule antisym)
  show "ceil_sqrt N \<le> m"
  proof (rule ccontr)
    assume "\<not> ceil_sqrt N \<le> m"
    then have "m * m < N" using ceil_sqrt_least [of m N] by simp
    with assms(1) show False by simp
  qed
  show "m \<le> ceil_sqrt N"
  proof (rule ccontr)
    assume "\<not> m \<le> ceil_sqrt N"
    with assms(2) have "ceil_sqrt N * ceil_sqrt N < N" by simp
    with ceil_sqrt_upper [of N] show False by simp
  qed
qed


lemma ceil_sqrt_examples:
  "ceil_sqrt 1 = 1" "ceil_sqrt 2 = 2" "ceil_sqrt 4 = 2" "ceil_sqrt 5 = 3" "ceil_sqrt 9 = 3"
  by (simp_all add: ceil_sqrt_def sqrt_search.simps)

subsection \<open>The two grid loops\<close>

lemma row_loop_eq:
  "sorted js \<Longrightarrow>
     row_loop N m r js s = s \<union> {r * m + j | j. j \<in> set js \<and> r * m + j < N}"
proof (induction js arbitrary: s)
  case Nil
  then show ?case by simp
next
  case (Cons j js)
  show ?case
  proof (cases "N \<le> r * m + j")
    case True
    with Cons.prems have "\<forall>j' \<in> set (j # js). \<not> r * m + j' < N" by auto
    with True show ?thesis by (auto simp: Let_def)
  next
    case False
    from Cons.prems have "sorted js" by simp
    from Cons.IH [OF this] False show ?thesis by (auto simp: Let_def)
  qed
qed

lemma col_loop_eq:
  "col_loop N m c is s = s \<union> {i * m + c | i. i \<in> set is \<and> i * m + c < N}"
  by (induction "is" arbitrary: s) (auto simp: Let_def)

lemma grid_union_eq:
  "grid_union N i =
     {(i div ceil_sqrt N) * ceil_sqrt N + j | j. j < ceil_sqrt N \<and> (i div ceil_sqrt N) * ceil_sqrt N + j < N}
     \<union> {k * ceil_sqrt N + i mod ceil_sqrt N | k. k < ceil_sqrt N \<and> k * ceil_sqrt N + i mod ceil_sqrt N < N}"
  by (simp add: grid_union_def Let_def row_loop_eq col_loop_eq)

lemma grid_row_self:
  assumes "1 \<le> N" "i < N"
  shows "\<exists>j. i = (i div ceil_sqrt N) * ceil_sqrt N + j \<and> j < ceil_sqrt N
           \<and> (i div ceil_sqrt N) * ceil_sqrt N + j < N"
proof (rule exI [of _ "i mod ceil_sqrt N"])
  from ceil_sqrt_pos [OF assms(1)] have "0 < ceil_sqrt N" by simp
  then show "i = (i div ceil_sqrt N) * ceil_sqrt N + i mod ceil_sqrt N
      \<and> i mod ceil_sqrt N < ceil_sqrt N
      \<and> (i div ceil_sqrt N) * ceil_sqrt N + i mod ceil_sqrt N < N"
    using assms(2) by simp
qed

lemma grid_col_self:
  assumes "1 \<le> N" "i < N"
  shows "\<exists>k. i = k * ceil_sqrt N + i mod ceil_sqrt N \<and> k < ceil_sqrt N
           \<and> k * ceil_sqrt N + i mod ceil_sqrt N < N"
proof (rule exI [of _ "i div ceil_sqrt N"])
  have "(i div ceil_sqrt N) * ceil_sqrt N \<le> i" by simp
  also have "i < ceil_sqrt N * ceil_sqrt N" using assms(2) ceil_sqrt_upper [of N] by simp
  finally have "i div ceil_sqrt N < ceil_sqrt N" by simp
  then show "i = (i div ceil_sqrt N) * ceil_sqrt N + i mod ceil_sqrt N
      \<and> i div ceil_sqrt N < ceil_sqrt N
      \<and> (i div ceil_sqrt N) * ceil_sqrt N + i mod ceil_sqrt N < N"
    using assms(2) by simp
qed

lemma grid_union_self: "1 \<le> N \<Longrightarrow> i < N \<Longrightarrow> i \<in> grid_union N i"
  using grid_row_self [of N i] unfolding grid_union_eq by simp

lemma grid_union_bound: "grid_union N i \<subseteq> {0..<N}"
  unfolding grid_union_eq by auto

lemma grid_union_card:
  assumes "1 \<le> N" "i < N"
  shows "card (grid_union N i) \<le> 2 * ceil_sqrt N - 1"
proof -
  let ?m = "ceil_sqrt N"
  let ?r = "i div ?m" and ?c = "i mod ?m"
  define A where "A = {?r * ?m + j | j. j < ?m \<and> ?r * ?m + j < N}"
  define B where "B = {k * ?m + ?c | k. k < ?m \<and> k * ?m + ?c < N}"
  from ceil_sqrt_pos [OF assms(1)] have m: "0 < ?m" by simp
  have A_sub: "A \<subseteq> (\<lambda>j. ?r * ?m + j) ` {0..<?m}" unfolding A_def by auto
  have B_sub: "B \<subseteq> (\<lambda>k. k * ?m + ?c) ` {0..<?m}" unfolding B_def by auto
  have fA: "finite A" using A_sub by (rule finite_subset) simp
  have fB: "finite B" using B_sub by (rule finite_subset) simp
  have cA: "card A \<le> ?m"
    using card_mono [OF _ A_sub] card_image_le [of "{0..<?m}" "\<lambda>j. ?r * ?m + j"] by simp
  have cB: "card B \<le> ?m"
    using card_mono [OF _ B_sub] card_image_le [of "{0..<?m}" "\<lambda>k. k * ?m + ?c"] by simp
  have iA: "i \<in> A"
    using grid_row_self [OF assms] unfolding A_def by simp
  have iB: "i \<in> B"
    using grid_col_self [OF assms] unfolding B_def by simp
  have "card (A \<inter> B) \<ge> 1"
    using iA iB fA by (metis IntI card_gt_0_iff empty_iff finite_Int less_eq_Suc_le One_nat_def)
  moreover have "card (A \<union> B) + card (A \<inter> B) = card A + card B"
    using fA fB by (rule card_Un_Int [symmetric])
  ultimately have "card (A \<union> B) \<le> 2 * ?m - 1" using cA cB by simp
  moreover have "grid_union N i = A \<union> B" unfolding grid_union_eq A_def B_def by simp
  ultimately show ?thesis by simp
qed

lemma grid_union_finite: "finite (grid_union N i)"
  using grid_union_bound by (rule finite_subset) simp

subsection \<open>The padding loop\<close>

lemma pad_loop_exact:
  "finite s \<Longrightarrow> card s \<le> t \<Longrightarrow> pad_loop t s ds = Some s' \<Longrightarrow>
     card s' = t \<and> finite s' \<and> s \<subseteq> s' \<and> s' \<subseteq> s \<union> set ds"
proof (induction ds arbitrary: s)
  case Nil
  then show ?case by (simp split: if_splits)
next
  case (Cons d ds)
  show ?case
  proof (cases "card s < t")
    case True
    from Cons.prems(1) have "finite (insert d s)" by simp
    moreover from True Cons.prems(1) have "card (insert d s) \<le> t" by (simp add: card_insert_if)
    moreover from True Cons.prems(3) have "pad_loop t (insert d s) ds = Some s'" by simp
    ultimately have "card s' = t \<and> finite s' \<and> insert d s \<subseteq> s' \<and> s' \<subseteq> insert d s \<union> set ds"
      by (rule Cons.IH)
    then show ?thesis by auto
  next
    case False
    with Cons.prems show ?thesis by auto
  qed
qed

lemma pad_loop_starved:
  "s \<subseteq> {0..<N} \<Longrightarrow> valid_draws N ds \<Longrightarrow> N < t \<Longrightarrow> pad_loop t s ds = None"
proof (induction ds arbitrary: s)
  case Nil
  from card_mono [OF _ Nil.prems(1)] have "card s \<le> N" by simp
  with Nil.prems(3) show ?case by simp
next
  case (Cons d ds)
  from card_mono [OF _ Cons.prems(1)] have "card s \<le> N" by simp
  with Cons.prems(3) have lt: "card s < t" by simp
  from Cons.prems(2) have d: "d < N" and ds: "valid_draws N ds"
    by (simp_all add: valid_draws_def)
  from d Cons.prems(1) have "insert d s \<subseteq> {0..<N}" by simp
  from Cons.IH [OF this ds Cons.prems(3)] lt show ?case by simp
qed

lemma pad_loop_fed:
  "finite s \<Longrightarrow> t \<le> card (s \<union> set ds) \<Longrightarrow> \<exists>s'. pad_loop t s ds = Some s'"
proof (induction ds arbitrary: s)
  case Nil
  then show ?case by simp
next
  case (Cons d ds)
  show ?case
  proof (cases "card s < t")
    case True
    from Cons.prems(2) have "t \<le> card (insert d s \<union> set ds)" by simp
    moreover from Cons.prems(1) have "finite (insert d s)" by simp
    ultimately have "\<exists>s'. pad_loop t (insert d s) ds = Some s'" by (rule Cons.IH [rotated])
    with True show ?thesis by simp
  next
    case False
    then show ?thesis by simp
  qed
qed

text \<open>
  For every other node count the target fits into the id range, and the loop ends as
  soon as every id has been drawn.
\<close>

lemma quorum_fits:
  assumes "1 \<le> N" "N \<noteq> 2"
  shows "2 * ceil_sqrt N - 1 \<le> N"
proof -
  from ceil_sqrt_pos [OF assms(1)] obtain k where m: "ceil_sqrt N = Suc k"
    by (cases "ceil_sqrt N") simp_all
  from ceil_sqrt_least [of k N] m have kk: "k * k < N" by simp
  consider "k = 0" | "k = 1" | "2 \<le> k" by linarith
  then show ?thesis
  proof cases
    case 1
    with m assms(1) show ?thesis by simp
  next
    case 2
    with kk assms(2) m show ?thesis by simp
  next
    case 3
    then have "2 * k \<le> k * k" by (rule mult_le_mono1)
    from this kk have "2 * k < N" by (rule le_less_trans)
    with m show ?thesis by simp
  qed
qed

lemma padding_ends_when_all_drawn:
  assumes "1 \<le> N" "N \<noteq> 2" "{0..<N} \<subseteq> set draws"
  shows "\<exists>cs. form_colleagues N i draws = Some cs"
proof -
  have "card {0..<N} \<le> card (grid_union N i \<union> set draws)"
    using assms(3) grid_union_finite [of N i] by (intro card_mono) auto
  with quorum_fits [OF assms(1,2)]
  have "2 * ceil_sqrt N - 1 \<le> card (grid_union N i \<union> set draws)" by simp
  from pad_loop_fed [OF grid_union_finite this]
  show ?thesis by (auto simp: form_colleagues_def padded_def)
qed



text \<open>
  The node itself is always among the padded set, so the list of colleagues is one
  shorter than the padded set.
\<close>

lemma quorum_list_length:
  assumes "1 \<le> N" and "i < N" and "form_colleagues N i draws = Some cs"
  shows "length cs = 2 * ceil_sqrt N - 2 \<and> distinct cs \<and> sorted cs"
proof -
  from assms(3) obtain s where s: "padded N i draws = Some s"
    and cs: "cs = sorted_list_of_set (s - {i})"
    by (auto simp: form_colleagues_def)
  from s have p: "pad_loop (2 * ceil_sqrt N - 1) (grid_union N i) draws = Some s"
    by (simp add: padded_def)
  from pad_loop_exact [OF grid_union_finite grid_union_card [OF assms(1,2)] p]
  have c: "card s = 2 * ceil_sqrt N - 1" and f: "finite s" and sub: "grid_union N i \<subseteq> s"
    by simp_all
  from sub grid_union_self [OF assms(1,2)] have "i \<in> s" by auto
  with c f have "card (s - {i}) = 2 * ceil_sqrt N - 2" by simp
  with cs f show ?thesis by simp
qed

text \<open>
  Claim C4 at \<open>N = 2\<close>.  The grid has two rows, the loop asks for three distinct ids, and
  \<^verbatim>\<open>randint(0, 1)\<close> has only two to give: whatever it returns, and however often, the
  padding loop is still running, and no node is ever constructed.
\<close>

theorem two_nodes_padding_never_ends:
  assumes "valid_draws 2 draws" and "i < 2"
  shows "padded 2 i draws = None \<and> form_colleagues 2 i draws = None
           \<and> init_node 2 i draws = None"
proof -
  have m: "ceil_sqrt 2 = 2" by (simp add: ceil_sqrt_def sqrt_search.simps)
  have "pad_loop 3 (grid_union 2 i) draws = None"
    by (rule pad_loop_starved [OF grid_union_bound assms(1)]) simp
  then have "padded 2 i draws = None" by (simp add: padded_def m)
  then show ?thesis by (simp add: form_colleagues_def init_node_def)
qed

theorem two_nodes_padding_never_ends_witness:
  "valid_draws 2 [0, 1, 1, 0, 1] \<and> (0::nat) < 2 \<and> padded 2 0 [0, 1, 1, 0, 1] = None
     \<and> form_colleagues 2 0 [0, 1, 1, 0, 1] = None \<and> init_node 2 0 [0, 1, 1, 0, 1] = None"
proof -
  have h: "valid_draws 2 [0, 1, 1, 0, 1]" by (simp add: valid_draws_def)
  from two_nodes_padding_never_ends [OF h, of 0] h show ?thesis by simp
qed

section \<open>The REQUEST handler\<close>

lemma send_message_ok:
  "dest msg = Some d \<Longrightarrow>
     send_message n msg d False =
       (n\<lparr>lamport_ts := lamport_ts n + 1\<rparr>, [msg\<lparr>ts := lamport_ts n + 1\<rparr>], None)"
  by (simp add: send_message_def Let_def)

text \<open>
  Claim C5.  The REQUEST handler, on a request of priority \<open>p = (ts msg, src msg)\<close>: with
  no grant out it sends GRANT to the requester and records \<open>p\<close> in \<open>grants_sent\<close>; with a
  grant \<open>g < p\<close> out it enqueues \<open>p\<close> and sends FAILED to the requester; with a grant
  \<open>g > p\<close> out it enqueues \<open>p\<close> and sends INQUIRE, carrying \<open>p\<close>, to the grantee \<open>snd g\<close>.
  Each reply is stamped with the clock after its tick.
\<close>

theorem request_handler_cases:
  "(grants_sent n = None \<longrightarrow>
      request_handler n msg =
        (n\<lparr>lamport_ts := lamport_ts n + 1, grants_sent := Some (ts msg, src msg)\<rparr>,
         [\<lparr>msg_type = GRANT, src = node_id n, dest = Some (src msg),
           ts = lamport_ts n + 1, data = None\<rparr>],
         None))
   \<and> (\<forall>g. grants_sent n = Some g \<and> g < (ts msg, src msg) \<longrightarrow>
      request_handler n msg =
        (n\<lparr>lamport_ts := lamport_ts n + 1, queue := put (ts msg, src msg) (queue n)\<rparr>,
         [\<lparr>msg_type = FAILED, src = node_id n, dest = Some (src msg),
           ts = lamport_ts n + 1, data = None\<rparr>],
         None))
   \<and> (\<forall>g. grants_sent n = Some g \<and> (ts msg, src msg) < g \<longrightarrow>
      request_handler n msg =
        (n\<lparr>lamport_ts := lamport_ts n + 1, queue := put (ts msg, src msg) (queue n)\<rparr>,
         [\<lparr>msg_type = INQUIRE, src = node_id n, dest = Some (snd g),
           ts = lamport_ts n + 1, data = Some (ts msg, src msg)\<rparr>],
         None))"
proof (intro conjI allI impI)
  assume "grants_sent n = None"
  then show "request_handler n msg =
        (n\<lparr>lamport_ts := lamport_ts n + 1, grants_sent := Some (ts msg, src msg)\<rparr>,
         [\<lparr>msg_type = GRANT, src = node_id n, dest = Some (src msg),
           ts = lamport_ts n + 1, data = None\<rparr>],
         None)"
    by (simp add: request_handler_def send_message_ok and_then_def)
next
  fix g assume "grants_sent n = Some g \<and> g < (ts msg, src msg)"
  then show "request_handler n msg =
        (n\<lparr>lamport_ts := lamport_ts n + 1, queue := put (ts msg, src msg) (queue n)\<rparr>,
         [\<lparr>msg_type = FAILED, src = node_id n, dest = Some (src msg),
           ts = lamport_ts n + 1, data = None\<rparr>],
         None)"
    by (cases g) (simp add: request_handler_def send_message_ok and_then_def)
next
  fix g assume a: "grants_sent n = Some g \<and> (ts msg, src msg) < g"
  then have "\<not> g < (ts msg, src msg)" by (meson less_asym)
  with a show "request_handler n msg =
        (n\<lparr>lamport_ts := lamport_ts n + 1, queue := put (ts msg, src msg) (queue n)\<rparr>,
         [\<lparr>msg_type = INQUIRE, src = node_id n, dest = Some (snd g),
           ts = lamport_ts n + 1, data = Some (ts msg, src msg)\<rparr>],
         None)"
    by (cases g) (simp add: request_handler_def send_message_ok and_then_def)
qed

theorem request_handler_cases_witness:
  "request_handler (arbiter None) \<lparr>msg_type = REQUEST, src = 1, dest = Some 0, ts = 5, data = None\<rparr>
     = ((arbiter None)\<lparr>lamport_ts := 7, grants_sent := Some (5, 1)\<rparr>,
        [\<lparr>msg_type = GRANT, src = 0, dest = Some 1, ts = 7, data = None\<rparr>], None)
   \<and> request_handler (arbiter (Some (5, 1))) \<lparr>msg_type = REQUEST, src = 3, dest = Some 0, ts = 5, data = None\<rparr>
     = ((arbiter (Some (5, 1)))\<lparr>lamport_ts := 7, queue := [(2, 6), (5, 3)]\<rparr>,
        [\<lparr>msg_type = FAILED, src = 0, dest = Some 3, ts = 7, data = None\<rparr>], None)
   \<and> request_handler (arbiter (Some (5, 3))) \<lparr>msg_type = REQUEST, src = 1, dest = Some 0, ts = 5, data = None\<rparr>
     = ((arbiter (Some (5, 3)))\<lparr>lamport_ts := 7, queue := [(2, 6), (5, 1)]\<rparr>,
        [\<lparr>msg_type = INQUIRE, src = 0, dest = Some 3, ts = 7, data = Some (5, 1)\<rparr>], None)"
  using request_handler_cases [of "arbiter None" "\<lparr>msg_type = REQUEST, src = 1, dest = Some 0, ts = 5, data = None\<rparr>"]
    request_handler_cases [of "arbiter (Some (5, 1))" "\<lparr>msg_type = REQUEST, src = 3, dest = Some 0, ts = 5, data = None\<rparr>"]
    request_handler_cases [of "arbiter (Some (5, 3))" "\<lparr>msg_type = REQUEST, src = 1, dest = Some 0, ts = 5, data = None\<rparr>"]
  by (simp add: arbiter_def put_def)

section \<open>Exceptions\<close>

text \<open>
  The assertions of the send path hold at every call the node makes, so the request loop
  raises nothing, and a received message raises only when its type is unknown.
\<close>

lemma multicast_loop_raises_nothing: "snd (snd (multicast_loop n msg ds out)) = None"
  by (induction ds arbitrary: out) (simp_all add: send_message_def Let_def)

lemma multicast_raises_nothing: "snd (snd (multicast n msg ds)) = None"
  by (simp add: multicast_def Let_def multicast_loop_raises_nothing)

lemma and_then_raises: "snd (snd (and_then r f)) = snd (snd r)"
  by (cases r) (simp add: and_then_def split: option.split)

lemma run_step_raises_nothing: "run_step n ph = Some ((n', out, e), ph') \<Longrightarrow> e = None"
proof (cases ph)
  case Sleeping
  assume "run_step n ph = Some ((n', out, e), ph')"
  with Sleeping have "(n', out, e) = send_request n \<or> e = None" by (auto split: if_splits)
  moreover have "snd (snd (send_request n)) = None"
    by (simp add: send_request_def Let_def multicast_raises_nothing)
  ultimately show ?thesis by (metis snd_conv)
next
  case Waiting
  assume "run_step n ph = Some ((n', out, e), ph')"
  with Waiting show ?thesis by (simp split: option.splits)
next
  case InCS
  assume "run_step n ph = Some ((n', out, e), ph')"
  with InCS show ?thesis by simp
next
  case Releasing
  assume "run_step n ph = Some ((n', out, e), ph')"
  with Releasing have "(n', out, e) = send_release n" by simp
  moreover have "snd (snd (send_release n)) = None"
    by (simp add: send_release_def and_then_raises multicast_raises_nothing)
  ultimately show ?thesis by (metis snd_conv)
next
  case Finished
  assume "run_step n ph = Some ((n', out, e), ph')"
  with Finished show ?thesis by simp
qed

lemma grant_head_raises_nothing: "snd (snd (grant_head n p rest)) = None"
  by (simp add: grant_head_def Let_def send_message_ok and_then_def)

lemma process_message_raises:
  "snd (snd (process_message n msg)) = (if msg_type msg = OTHER then Some ValueError else None)"
proof (cases "msg_type msg")
  case REQUEST
  then show ?thesis
    by (simp add: process_message_def dispatch_def request_handler_def send_message_ok
        and_then_def split: option.split prod.split)
next
  case GRANT
  then show ?thesis by (simp add: process_message_def dispatch_def)
next
  case RELEASE
  then show ?thesis
    by (simp add: process_message_def dispatch_def release_handler_def Let_def
        grant_head_raises_nothing split: list.split)
next
  case FAILED
  then show ?thesis by (simp add: process_message_def dispatch_def)
next
  case INQUIRE
  then show ?thesis
    by (simp add: process_message_def dispatch_def inquire_handler_def Let_def send_message_ok)
next
  case YIELD
  then show ?thesis
    by (simp add: process_message_def dispatch_def yield_handler_def Let_def
        grant_head_raises_nothing split: list.split)
next
  case OTHER
  then show ?thesis by (simp add: process_message_def dispatch_def)
qed

section \<open>The Lamport clock on receipt\<close>

lemma grant_head_stamped: "lamport_ts n = c \<Longrightarrow> stamped c (grant_head n p rest)"
  by (simp add: grant_head_def Let_def send_message_ok and_then_def stamped_def)

lemma silent_stamped: "lamport_ts n = c \<Longrightarrow> stamped c (n, [], e)"
  by (simp add: stamped_def)

lemma request_handler_stamped: "stamped (lamport_ts n) (request_handler n msg)"
  by (simp add: request_handler_def send_message_ok and_then_def stamped_def
      split: option.split prod.split)

lemma yield_handler_stamped: "stamped (lamport_ts n) (yield_handler n msg)"
  by (simp add: yield_handler_def Let_def grant_head_stamped silent_stamped split: list.split)

lemma release_handler_stamped: "stamped (lamport_ts n) (release_handler n msg)"
  by (simp add: release_handler_def Let_def grant_head_stamped silent_stamped split: list.split)

lemma inquire_handler_stamped: "stamped (lamport_ts n) (inquire_handler n msg)"
  by (simp add: inquire_handler_def Let_def send_message_ok stamped_def)

lemma dispatch_stamped: "stamped (lamport_ts n) (dispatch n msg)"
proof (cases "msg_type msg")
  case REQUEST
  then show ?thesis using request_handler_stamped [of n msg] by (simp add: dispatch_def)
next
  case GRANT
  then show ?thesis by (simp add: dispatch_def grant_handler_def Let_def stamped_def)
next
  case RELEASE
  then show ?thesis using release_handler_stamped [of n msg] by (simp add: dispatch_def)
next
  case FAILED
  then show ?thesis by (simp add: dispatch_def failed_handler_def stamped_def)
next
  case INQUIRE
  then show ?thesis using inquire_handler_stamped [of n msg] by (simp add: dispatch_def)
next
  case YIELD
  then show ?thesis using yield_handler_stamped [of n msg] by (simp add: dispatch_def)
next
  case OTHER
  then show ?thesis by (simp add: dispatch_def stamped_def)
qed

text \<open>
  Claim C6.  A node at clock \<open>c\<close> that receives \<open>m\<close> moves its clock to
  \<open>max c (ts m) + 1\<close>, and only then dispatches: the handler runs on the updated node, so
  every reply it sends carries \<open>max c (ts m) + 2\<close>, and the clock ends one tick further
  for each reply sent.
\<close>

theorem receive_clock_rule:
  "lamport_ts (receive_clock n m) = max (lamport_ts n) (ts m) + 1
   \<and> process_message n m = dispatch (receive_clock n m) m
   \<and> (case process_message n m of (n', out, e) \<Rightarrow>
         (\<forall>r \<in> set out. ts r = max (lamport_ts n) (ts m) + 2)
         \<and> lamport_ts n' = max (lamport_ts n) (ts m) + 1 + int (length out))"
proof -
  have c: "lamport_ts (receive_clock n m) = max (lamport_ts n) (ts m) + 1"
    by (simp add: receive_clock_def)
  from dispatch_stamped [of "receive_clock n m" m] c
  have "case dispatch (receive_clock n m) m of (n', out, e) \<Rightarrow>
         (\<forall>r \<in> set out. ts r = max (lamport_ts n) (ts m) + 2)
         \<and> lamport_ts n' = max (lamport_ts n) (ts m) + 1 + int (length out)"
    by (auto simp: stamped_def list_all_iff)
  with c show ?thesis by (simp add: process_message_def)
qed

theorem receive_clock_rule_witness:
  "lamport_ts (receive_clock (member_at 4) \<lparr>msg_type = GRANT, src = 0, dest = Some 2, ts = 10, data = None\<rparr>) = 11
   \<and> process_message (member_at 4) \<lparr>msg_type = GRANT, src = 0, dest = Some 2, ts = 10, data = None\<rparr>
       = ((member_at 11)\<lparr>grants_received := {0, 2}\<rparr>, [], None)
   \<and> process_message (member_at 4) \<lparr>msg_type = REQUEST, src = 0, dest = Some 2, ts = 10, data = None\<rparr>
       = ((member_at 12)\<lparr>grants_sent := Some (10, 0)\<rparr>,
          [\<lparr>msg_type = GRANT, src = 2, dest = Some 0, ts = 12, data = None\<rparr>], None)
   \<and> process_message (member_at 20) \<lparr>msg_type = FAILED, src = 0, dest = Some 2, ts = 10, data = None\<rparr>
       = ((member_at 21)\<lparr>yielded := True, failed := True\<rparr>, [], None)"
  using receive_clock_rule [of "member_at 4" "\<lparr>msg_type = GRANT, src = 0, dest = Some 2, ts = 10, data = None\<rparr>"]
    receive_clock_rule [of "member_at 4" "\<lparr>msg_type = REQUEST, src = 0, dest = Some 2, ts = 10, data = None\<rparr>"]
    receive_clock_rule [of "member_at 20" "\<lparr>msg_type = FAILED, src = 0, dest = Some 2, ts = 10, data = None\<rparr>"]
  by (simp add: member_at_def receive_clock_def dispatch_def request_handler_def grant_handler_def
      failed_handler_def send_message_def and_then_def Let_def insert_commute)

section \<open>Entering the critical section\<close>

text \<open>
  Claim C1 at node 0 of four.  Its colleagues are 1 and 2.  After its request and the
  GRANT of node 1 alone, \<open>grants_received\<close> is \<open>{0, 1}\<close>: the GRANT handler signals the
  condition, the guard of the wait loop is false, and the node sets \<open>in_CS\<close> with two
  grants where \<open>|colleagues| + 1\<close> is three.
\<close>

theorem enters_one_grant_short:
  "map_option (\<lambda>sys. (nodes sys ! 0, take_message 1 0 (network sys)))
       (run_from_start 4 (\<lambda>i. []) [Run 0, Deliver 0 1])
     = Some (waiting_node,
             Some (\<lparr>msg_type = GRANT, src = 1, dest = Some 0, ts = 3, data = None\<rparr>,
                   [\<lparr>msg_type = REQUEST, src = 0, dest = Some 2, ts = 1, data = None\<rparr>]))
   \<and> grant_handler waiting_node \<lparr>msg_type = GRANT, src = 1, dest = Some 0, ts = 3, data = None\<rparr>
       = (waiting_node\<lparr>grants_received := {0, 1}\<rparr>, True)
   \<and> enter_cs (waiting_node\<lparr>grants_received := {0, 1}\<rparr>)
       = Some (waiting_node\<lparr>grants_received := {0, 1}, in_CS := True\<rparr>)
   \<and> card (grants_received (waiting_node\<lparr>grants_received := {0, 1}\<rparr>)) = 2
   \<and> length (colleagues (waiting_node\<lparr>grants_received := {0, 1}\<rparr>)) + 1 = 3"
proof -
  have "map_option (\<lambda>sys. (nodes sys ! 0, take_message 1 0 (network sys)))
       (run_from_start 4 (\<lambda>i. []) [Run 0, Deliver 0 1])
     = Some (waiting_node,
             Some (\<lparr>msg_type = GRANT, src = 1, dest = Some 0, ts = 3, data = None\<rparr>,
                   [\<lparr>msg_type = REQUEST, src = 0, dest = Some 2, ts = 1, data = None\<rparr>]))"
    by code_simp
  moreover have "grant_handler waiting_node \<lparr>msg_type = GRANT, src = 1, dest = Some 0, ts = 3, data = None\<rparr>
       = (waiting_node\<lparr>grants_received := {0, 1}\<rparr>, True)"
    by (simp add: grant_handler_def waiting_node_def Let_def insert_commute)
  moreover have "enter_cs (waiting_node\<lparr>grants_received := {0, 1}\<rparr>)
       = Some (waiting_node\<lparr>grants_received := {0, 1}, in_CS := True\<rparr>)"
    by (simp add: enter_cs_def waiting_node_def)
  ultimately show ?thesis by (simp add: waiting_node_def)
qed

text \<open>
  Claim C2 in a run of four nodes.  Nodes 0 and 3 share the colleagues 1 and 2.  Both
  request; node 1 grants to node 0 and node 2 grants to node 3; each of the two then
  holds its own grant and one colleague's, which is enough for the wait loop, and both
  are inside the critical section at once.
\<close>

theorem two_nodes_in_critical_section:
  "map_option (\<lambda>sys. (occupants sys, phases sys))
       (run_from_start 4 (\<lambda>i. [])
          [Run 0, Run 3, Deliver 0 1, Deliver 3 2, Deliver 1 0, Deliver 2 3, Run 0, Run 3])
     = Some ([0, 3], [InCS, Sleeping, Sleeping, InCS])"
  by code_simp

section \<open>What a queue can hold\<close>

text \<open>
  A run of nine nodes in which a queue holds one node twice (against claim C9).  Node 0
  grants to node 3, then receives the earlier-ranked requests of nodes 1 and 2 and sends
  node 3 an INQUIRE for each.  Node 3 answers each with a YIELD, and the YIELD handler
  enqueues node 3 both times.
\<close>

theorem queue_holds_one_src_twice:
  "map_option (\<lambda>sys. (node_id (nodes sys ! 0), queue (nodes sys ! 0), distinct (map snd (queue (nodes sys ! 0)))))
       (run_from_start 9 (\<lambda>i. [])
          [Run 3, Run 1, Run 2, Deliver 3 0, Deliver 1 0, Deliver 2 0,
           Deliver 0 3, Deliver 0 3, Deliver 0 3, Deliver 3 0, Deliver 3 0])
     = Some (0, [(7, 3), (9, 3)], False)"
  by code_simp

subsection \<open>Construction leaves the system in order\<close>

lemma pad_loop_finite: "finite s \<Longrightarrow> pad_loop t s ds = Some s' \<Longrightarrow> finite s'"
proof (induction ds arbitrary: s)
  case Nil
  then show ?case by (simp split: if_splits)
next
  case (Cons d ds)
  show ?case
  proof (cases "card s < t")
    case True
    with Cons.prems(2) have "pad_loop t (insert d s) ds = Some s'" by simp
    moreover from Cons.prems(1) have "finite (insert d s)" by simp
    ultimately show ?thesis by (rule Cons.IH [rotated])
  next
    case False
    with Cons.prems show ?thesis by simp
  qed
qed

lemma form_colleagues_excludes_self:
  assumes "form_colleagues N i draws = Some cs"
  shows "i \<notin> set cs"
proof -
  from assms obtain s where s: "pad_loop (2 * ceil_sqrt N - 1) (grid_union N i) draws = Some s"
    and cs: "cs = sorted_list_of_set (s - {i})"
    by (auto simp: form_colleagues_def padded_def)
  from pad_loop_finite [OF grid_union_finite s] have "finite s" .
  with cs show ?thesis by simp
qed

lemma init_node_ok:
  assumes "init_node N i draws = Some n"
  shows "node_ok n \<and> node_id n = i"
proof -
  from assms obtain cs where cs: "form_colleagues N i draws = Some cs"
    and n: "n = \<lparr>node_id = i, lamport_ts = 0, colleagues = cs, queue = [],
              grants_sent = None, grants_received = {}, yielded = False, failed = False,
              in_CS = False, wakeupcounter = 0\<rparr>"
    by (auto simp: init_node_def)
  from form_colleagues_excludes_self [OF cs] n show ?thesis by (simp add: node_ok_def)
qed

lemma those_map_Some: "those xs = Some ys \<Longrightarrow> xs = map Some ys"
proof (induction xs arbitrary: ys)
  case Nil
  then show ?case by simp
next
  case (Cons x xs)
  from Cons.prems obtain y zs where "x = Some y" "those xs = Some zs" "ys = y # zs"
    by (cases x) (auto split: option.splits)
  with Cons.IH [of zs] show ?case by simp
qed

lemma init_system_ok:
  assumes "init_system N draws = Some sys"
  shows "sys_ok sys \<and> length (nodes sys) = N"
proof -
  from assms obtain ns where th: "those (map (\<lambda>i. init_node N i (draws i)) [0..<N]) = Some ns"
    and sys: "sys = \<lparr>nodes = ns, phases = replicate N Sleeping, network = []\<rparr>"
    by (auto simp: init_system_def)
  from those_map_Some [OF th] have eq: "map (\<lambda>i. init_node N i (draws i)) [0..<N] = map Some ns" .
  from arg_cong [OF eq, of length] have len: "length ns = N" by simp
  have each: "node_ok (ns ! i) \<and> node_id (ns ! i) = i" if "i < N" for i
  proof -
    from arg_cong [OF eq, of "\<lambda>xs. xs ! i"] that len
    have "init_node N i (draws i) = Some (ns ! i)" by simp
    then show ?thesis by (rule init_node_ok)
  qed
  have "list_all node_ok ns" using each len by (simp add: list_all_length)
  moreover have "map node_id ns = [0..<length ns]"
    using each len by (intro nth_equalityI) simp_all
  ultimately show ?thesis using sys len by (simp add: sys_ok_def)
qed

subsection \<open>The handlers keep a node in order\<close>

lemma put_srcs: "snd ` set (put p q) = insert (snd p) (snd ` set q)"
  by (simp add: put_def set_insort_key)

lemma purge_subset: "set (purge s q new) \<subseteq> set q \<union> set new"
proof (induction q arbitrary: new)
  case Nil
  then show ?case by simp
next
  case (Cons x q)
  obtain t r where x: "x = (t, r)" by (cases x)
  from Cons.IH [of new] Cons.IH [of "put (t, r) new"] show ?case
    by (auto simp: x put_def set_insort_key)
qed

lemma grant_head_emits:
  assumes "node_ok (n2\<lparr>queue := rest\<rparr>)" "snd p \<noteq> node_id n" "node_id n2 = node_id n"
  shows "emits n (grant_head n2 p rest)"
  using assms
  by (simp add: grant_head_def Let_def send_message_ok and_then_def emits_def node_ok_def msg_ok_def)

lemma request_handler_emits:
  assumes "node_ok n" "src msg \<noteq> node_id n"
  shows "emits n (request_handler n msg)"
  using assms
  by (auto simp: request_handler_def send_message_ok and_then_def emits_def node_ok_def
      msg_ok_def put_srcs split: option.split prod.split)

lemma yield_handler_emits:
  assumes "node_ok n" "src msg \<noteq> node_id n"
  shows "emits n (yield_handler n msg)"
proof -
  let ?q = "put (ts msg, src msg) (queue n)"
  from assms have q: "node_id n \<notin> snd ` set ?q" by (auto simp: put_srcs node_ok_def)
  show ?thesis
  proof (cases ?q)
    case Nil
    then show ?thesis by (simp add: put_def)
  next
    case (Cons p rest)
    with q have p: "snd p \<noteq> node_id n" and r: "node_id n \<notin> snd ` set rest" by auto
    from assms(1) r have
      "node_ok (n\<lparr>queue := rest\<rparr>)" "node_ok (n\<lparr>grants_sent := None, queue := rest\<rparr>)"
      by (simp_all add: node_ok_def)
    with p Cons show ?thesis
      by (simp add: yield_handler_def Let_def grant_head_emits)
  qed
qed

lemma release_handler_emits:
  assumes "node_ok n"
  shows "emits n (release_handler n msg)"
proof -
  let ?q = "purge (src msg) (queue n) []"
  from purge_subset [of "src msg" "queue n" "[]"] assms
  have q: "node_id n \<notin> snd ` set ?q" by (auto simp: node_ok_def)
  show ?thesis
  proof (cases ?q)
    case Nil
    with assms show ?thesis
      by (simp add: release_handler_def Let_def emits_def node_ok_def)
  next
    case (Cons p rest)
    with q have p: "snd p \<noteq> node_id n" and r: "node_id n \<notin> snd ` set rest" by auto
    from assms(1) r have
      "node_ok (n\<lparr>queue := rest\<rparr>)" "node_ok (n\<lparr>grants_sent := None, queue := rest\<rparr>)"
      by (simp_all add: node_ok_def)
    with p Cons show ?thesis
      by (simp add: release_handler_def Let_def grant_head_emits)
  qed
qed

lemma inquire_handler_emits:
  assumes "node_ok n" "src msg \<noteq> node_id n"
  shows "emits n (inquire_handler n msg)"
  using assms
  by (simp add: inquire_handler_def Let_def send_message_ok emits_def node_ok_def msg_ok_def)

lemma process_message_emits:
  assumes "node_ok n" "src msg \<noteq> node_id n"
  shows "emits n (process_message n msg)"
proof -
  let ?n = "receive_clock n msg"
  from assms have ok: "node_ok ?n" "src msg \<noteq> node_id ?n" and ident: "node_id ?n = node_id n"
    by (simp_all add: receive_clock_def node_ok_def)
  have "emits ?n (dispatch ?n msg)"
  proof (cases "msg_type msg")
    case REQUEST
    then show ?thesis using request_handler_emits [OF ok] by (simp add: dispatch_def)
  next
    case GRANT
    then show ?thesis using ok(1)
      by (simp add: dispatch_def grant_handler_def Let_def emits_def node_ok_def)
  next
    case RELEASE
    then show ?thesis using release_handler_emits [OF ok(1)] by (simp add: dispatch_def)
  next
    case FAILED
    then show ?thesis using ok(1)
      by (simp add: dispatch_def failed_handler_def emits_def node_ok_def)
  next
    case INQUIRE
    then show ?thesis using inquire_handler_emits [OF ok] by (simp add: dispatch_def)
  next
    case YIELD
    then show ?thesis using yield_handler_emits [OF ok] by (simp add: dispatch_def)
  next
    case OTHER
    then show ?thesis using ok(1) by (simp add: dispatch_def emits_def)
  qed
  with ident show ?thesis by (simp add: process_message_def emits_def split: prod.splits)
qed

subsection \<open>The request loop and the system steps\<close>

lemma emits_same_id: "node_id n1 = node_id n \<Longrightarrow> emits n1 r \<Longrightarrow> emits n r"
  by (simp add: emits_def split: prod.splits)

lemma multicast_loop_emits:
  assumes "node_ok n" "node_id n \<notin> set ds" "src msg = node_id n"
    and "list_all (\<lambda>m. src m = node_id n \<and> msg_ok m) out"
  shows "emits n (multicast_loop n msg ds out)"
  using assms
proof (induction ds arbitrary: out)
  case Nil
  then show ?case by (simp add: emits_def)
next
  case (Cons d ds)
  have sent: "send_message n (msg\<lparr>dest := Some d\<rparr>) d True = (n, [msg\<lparr>dest := Some d\<rparr>], None)"
    by (simp add: send_message_def)
  from Cons.prems have "list_all (\<lambda>m. src m = node_id n \<and> msg_ok m) (out @ [msg\<lparr>dest := Some d\<rparr>])"
    by (auto simp: msg_ok_def)
  moreover from Cons.prems have "node_id n \<notin> set ds" by simp
  ultimately have "emits n (multicast_loop n msg ds (out @ [msg\<lparr>dest := Some d\<rparr>]))"
    using Cons.prems(1,3) by (intro Cons.IH)
  with sent show ?case by (simp add: Let_def)
qed

lemma multicast_emits:
  assumes "node_ok n" "node_id n \<notin> set ds" "src msg = node_id n"
  shows "emits n (multicast n msg ds)"
proof -
  let ?n1 = "n\<lparr>lamport_ts := lamport_ts n + 1\<rparr>"
  from assms(1) have "node_ok ?n1" by (simp add: node_ok_def)
  moreover from assms(2) have "node_id ?n1 \<notin> set ds" by simp
  moreover from assms(3) have "src (msg\<lparr>ts := lamport_ts ?n1\<rparr>) = node_id ?n1" by simp
  ultimately have "emits ?n1 (multicast_loop ?n1 (msg\<lparr>ts := lamport_ts ?n1\<rparr>) ds [])"
    by (rule multicast_loop_emits) simp
  then have "emits n (multicast_loop ?n1 (msg\<lparr>ts := lamport_ts ?n1\<rparr>) ds [])"
    by (rule emits_same_id [rotated]) simp
  then show ?thesis by (simp add: multicast_def Let_def)
qed

lemma and_then_emits:
  assumes "emits n r" and "\<And>n'. node_ok n' \<Longrightarrow> node_ok (f n') \<and> node_id (f n') = node_id n'"
  shows "emits n (and_then r f)"
proof -
  obtain n' out e where r: "r = (n', out, e)" by (cases r)
  with assms(1) have ok: "node_ok n'" "node_id n' = node_id n"
    and out: "list_all (\<lambda>m. src m = node_id n \<and> msg_ok m) out"
    by (simp_all add: emits_def)
  show ?thesis
  proof (cases e)
    case None
    with r ok out assms(2) [OF ok(1)] show ?thesis by (simp add: and_then_def emits_def)
  next
    case (Some x)
    with r ok out show ?thesis by (simp add: and_then_def emits_def)
  qed
qed

lemma send_request_emits: "node_ok n \<Longrightarrow> emits n (send_request n)"
proof -
  assume ok: "node_ok n"
  let ?n1 = "n\<lparr>grants_received := insert (node_id n) (grants_received n)\<rparr>"
  from ok have "node_ok ?n1" "node_id ?n1 \<notin> set (colleagues ?n1)" by (simp_all add: node_ok_def)
  then have "emits ?n1 (multicast ?n1
      \<lparr>msg_type = REQUEST, src = node_id ?n1, dest = None, ts = lamport_ts ?n1, data = None\<rparr>
      (colleagues ?n1))"
    by (rule multicast_emits) simp
  then have "emits n (multicast ?n1
      \<lparr>msg_type = REQUEST, src = node_id ?n1, dest = None, ts = lamport_ts ?n1, data = None\<rparr>
      (colleagues ?n1))"
    by (rule emits_same_id [rotated]) simp
  then show ?thesis by (simp add: send_request_def Let_def)
qed

lemma send_release_emits: "node_ok n \<Longrightarrow> emits n (send_release n)"
proof -
  assume ok: "node_ok n"
  then have "node_id n \<notin> set (colleagues n)" by (simp add: node_ok_def)
  with ok have "emits n (multicast n
      \<lparr>msg_type = RELEASE, src = node_id n, dest = None, ts = lamport_ts n, data = None\<rparr>
      (colleagues n))"
    by (rule multicast_emits) simp
  then show ?thesis
    unfolding send_release_def by (rule and_then_emits) (simp add: node_ok_def)
qed

lemma run_step_emits:
  assumes "node_ok n" "run_step n ph = Some (r, ph')"
  shows "emits n r"
proof (cases ph)
  case Sleeping
  with assms(2) have "r = send_request n \<or> r = (n, [], None)" by (auto split: if_splits)
  with assms(1) send_request_emits [OF assms(1)] show ?thesis by (auto simp: emits_def)
next
  case Waiting
  with assms(2) have "r = (n\<lparr>in_CS := True\<rparr>, [], None)"
    by (simp add: enter_cs_def split: if_splits)
  with assms(1) show ?thesis by (simp add: emits_def node_ok_def)
next
  case InCS
  with assms(2) have "r = (exit_cs n, [], None)" by simp
  with assms(1) show ?thesis by (simp add: exit_cs_def emits_def node_ok_def)
next
  case Releasing
  with assms send_release_emits [OF assms(1)] show ?thesis by auto
next
  case Finished
  with assms show ?thesis by simp
qed

lemma take_message_props:
  "take_message i j ms = Some (m, rest) \<Longrightarrow>
     src m = i \<and> dest m = Some j \<and> m \<in> set ms \<and> set rest \<subseteq> set ms"
proof (induction ms arbitrary: rest)
  case Nil
  then show ?case by simp
next
  case (Cons x ms)
  show ?case
  proof (cases "src x = i \<and> dest x = Some j")
    case True
    with Cons.prems show ?thesis by auto
  next
    case False
    with Cons.prems obtain rest' where t: "take_message i j ms = Some (m, rest')"
      and r: "rest = x # rest'"
      by auto
    from Cons.IH [OF t] r show ?thesis by auto
  qed
qed

lemma sys_ok_update:
  assumes "sys_ok sys" "k < length (nodes sys)" "emits (nodes sys ! k) (n, out, e)"
    and "set rest \<subseteq> set (network sys)"
  shows "sys_ok (sys\<lparr>nodes := (nodes sys)[k := n], network := rest @ out\<rparr>)"
    and "sys_ok (sys\<lparr>nodes := (nodes sys)[k := n], phases := phs, network := rest @ out\<rparr>)"
proof -
  from assms(3) have n: "node_ok n" "node_id n = node_id (nodes sys ! k)"
    and out: "list_all msg_ok out"
    by (simp_all add: emits_def list_all_iff)
  from assms(1) have a: "list_all node_ok (nodes sys)"
    and b: "map node_id (nodes sys) = [0..<length (nodes sys)]"
    and c: "list_all msg_ok (network sys)"
    by (simp_all add: sys_ok_def)
  from a n(1) have a': "list_all node_ok ((nodes sys)[k := n])"
    using set_update_subset_insert [of "nodes sys" k n] by (auto simp: list_all_iff)
  have "map node_id ((nodes sys)[k := n]) = (map node_id (nodes sys))[k := node_id (nodes sys ! k)]"
    using n(2) by (simp add: map_update)
  also have "\<dots> = map node_id (nodes sys)"
    using assms(2) by (simp add: list_update_same_conv)
  finally have b': "map node_id ((nodes sys)[k := n]) = [0..<length ((nodes sys)[k := n])]"
    using b by simp
  from c out assms(4) have c': "list_all msg_ok (rest @ out)" by (auto simp: list_all_iff)
  from a' b' c' show "sys_ok (sys\<lparr>nodes := (nodes sys)[k := n], network := rest @ out\<rparr>)"
    and "sys_ok (sys\<lparr>nodes := (nodes sys)[k := n], phases := phs, network := rest @ out\<rparr>)"
    by (simp_all add: sys_ok_def)
qed

lemma step_ok:
  assumes "sys_ok sys" "step sys ev = Some sys'"
  shows "sys_ok sys' \<and> length (nodes sys') = length (nodes sys)"
proof (cases ev)
  case (Run i)
  with assms(2) obtain n out e ph where i: "i < length (nodes sys)"
    and rs: "run_step (nodes sys ! i) (phases sys ! i) = Some ((n, out, e), ph)"
    and s': "sys' = sys\<lparr>nodes := (nodes sys)[i := n], phases := (phases sys)[i := ph],
                        network := network sys @ out\<rparr>"
    by (auto split: if_splits option.splits)
  from assms(1) i have "node_ok (nodes sys ! i)" by (simp add: sys_ok_def list_all_length)
  from run_step_emits [OF this rs] have "emits (nodes sys ! i) (n, out, e)" .
  from sys_ok_update(2) [OF assms(1) i this subset_refl] s' show ?thesis by simp
next
  case (Deliver i j)
  with assms(2) obtain m rest n out e where j: "j < length (nodes sys)"
    and tk: "take_message i j (network sys) = Some (m, rest)"
    and pm: "process_message (nodes sys ! j) m = (n, out, e)"
    and s': "sys' = sys\<lparr>nodes := (nodes sys)[j := n], network := rest @ out\<rparr>"
    by (auto split: if_splits option.splits prod.splits)
  from take_message_props [OF tk] have m: "dest m = Some j" "m \<in> set (network sys)"
    and sub: "set rest \<subseteq> set (network sys)"
    by simp_all
  from assms(1) m(2) have "msg_ok m" by (simp add: sys_ok_def list_all_iff)
  with m(1) have "src m \<noteq> j" by (auto simp: msg_ok_def)
  moreover from assms(1) j have ok: "node_ok (nodes sys ! j)"
    by (simp add: sys_ok_def list_all_length)
  moreover have "node_id (nodes sys ! j) = j"
  proof -
    from assms(1) have "map node_id (nodes sys) ! j = [0..<length (nodes sys)] ! j"
      by (simp add: sys_ok_def)
    with j show ?thesis by simp
  qed
  ultimately have "emits (nodes sys ! j) (process_message (nodes sys ! j) m)"
    by (intro process_message_emits) simp_all
  with pm have "emits (nodes sys ! j) (n, out, e)" by simp
  from sys_ok_update(1) [OF assms(1) j this sub] s' show ?thesis by simp
qed

lemma exec_ok:
  "sys_ok sys \<Longrightarrow> exec sys evs = Some sys' \<Longrightarrow>
     sys_ok sys' \<and> length (nodes sys') = length (nodes sys)"
proof (induction evs arbitrary: sys)
  case Nil
  then show ?case by simp
next
  case (Cons ev evs)
  from Cons.prems(2) obtain sys1 where s1: "step sys ev = Some sys1"
    and rest: "exec sys1 evs = Some sys'"
    by (auto split: option.splits)
  from step_ok [OF Cons.prems(1) s1] Cons.IH [OF _ rest] show ?case by simp
qed

text \<open>
  Claim C9, as the code has it.  In every run of the system from its start, whatever the
  schedule, no node's queue holds an entry whose \<open>src\<close> is the node's own id.  (That no
  \<open>src\<close> appears twice does not hold: see the run above.)
\<close>

theorem queue_never_holds_own_id:
  assumes "run_from_start N draws evs = Some sys" and "i < N"
  shows "node_id (nodes sys ! i) = i
         \<and> (\<forall>(t, s) \<in> set (queue (nodes sys ! i)). s \<noteq> node_id (nodes sys ! i))"
proof -
  from assms(1) obtain sys0 where init: "init_system N draws = Some sys0"
    and ex: "exec sys0 evs = Some sys"
    by (auto simp: run_from_start_def split: option.splits)
  from init_system_ok [OF init] have "sys_ok sys0" "length (nodes sys0) = N" by simp_all
  with exec_ok [OF _ ex] have ok: "sys_ok sys" and len: "length (nodes sys) = N" by simp_all
  from ok have "map node_id (nodes sys) ! i = [0..<length (nodes sys)] ! i"
    by (simp add: sys_ok_def)
  with len assms(2) have ident: "node_id (nodes sys ! i) = i" by simp
  from ok len assms(2) have "node_ok (nodes sys ! i)" by (simp add: sys_ok_def list_all_length)
  then have "node_id (nodes sys ! i) \<notin> snd ` set (queue (nodes sys ! i))"
    by (simp add: node_ok_def)
  with ident show ?thesis by force
qed

theorem queue_never_holds_own_id_witness:
  "\<exists>sys. run_from_start 9 (\<lambda>i. []) [Run 3, Run 1, Deliver 3 0, Deliver 1 0] = Some sys
      \<and> (0::nat) < 9
      \<and> queue (nodes sys ! 0) = [(1, 1)] \<and> grants_sent (nodes sys ! 0) = Some (1, 3)
      \<and> node_id (nodes sys ! 0) = 0
      \<and> list_all (\<lambda>(t, s). s \<noteq> node_id (nodes sys ! 0)) (queue (nodes sys ! 0))"
proof -
  have "map_option (\<lambda>sys. (queue (nodes sys ! 0), grants_sent (nodes sys ! 0)))
          (run_from_start 9 (\<lambda>i. []) [Run 3, Run 1, Deliver 3 0, Deliver 1 0])
        = Some ([(1, 1)], Some (1, 3))"
    by code_simp
  then obtain sys where h: "run_from_start 9 (\<lambda>i. []) [Run 3, Run 1, Deliver 3 0, Deliver 1 0] = Some sys"
    and q: "queue (nodes sys ! 0) = [(1, 1)]" and g: "grants_sent (nodes sys ! 0) = Some (1, 3)"
    by auto
  from queue_never_holds_own_id [OF h, of 0] h q g show ?thesis by simp
qed

end
